theory Spec2Isabelle
  imports Main "HOL-Library.Multiset"
begin

section \<open>Python string primitives used by the sources\<close>

text \<open>
  Strings are byte strings; the development covers ASCII input. \<open>is_space\<close> lists the
  ASCII characters that \<^verbatim>\<open>str.strip()\<close> removes, \<open>is_digit\<close> the ASCII characters for
  which \<^verbatim>\<open>str.isdigit()\<close> holds.
\<close>

definition is_space :: "char \<Rightarrow> bool" where
  "is_space c = (of_char c \<in> {9, 10, 11, 12, 13, 28, 29, 30, 31, 32 :: nat})"

definition is_digit :: "char \<Rightarrow> bool" where
  "is_digit c = (48 \<le> (of_char c :: nat) \<and> (of_char c :: nat) \<le> 57)"

definition digit_val :: "char \<Rightarrow> nat" where
  "digit_val c = of_char c - 48"

definition digit_char :: "nat \<Rightarrow> char" where
  "digit_char d = char_of (48 + d)"

text \<open>\<^verbatim>\<open>s.strip()\<close>\<close>

definition strip :: "string \<Rightarrow> string" where
  "strip s = rev (dropWhile is_space (rev (dropWhile is_space s)))"

text \<open>\<^verbatim>\<open>s.isdigit()\<close>: every character is a digit and there is at least one.\<close>

definition isdigit :: "string \<Rightarrow> bool" where
  "isdigit s = (s \<noteq> [] \<and> list_all is_digit s)"

text \<open>\<^verbatim>\<open>s.split(c)\<close> for a one-character separator: never the empty list.\<close>

fun split_on :: "char \<Rightarrow> string \<Rightarrow> string list" where
  "split_on c [] = [[]]"
| "split_on c (x # xs) =
     (if x = c then [] # split_on c xs
      else (case split_on c xs of [] \<Rightarrow> [[x]] | p # ps \<Rightarrow> (x # p) # ps))"

text \<open>\<^verbatim>\<open>s.startswith(p)\<close> and \<^verbatim>\<open>sub in s\<close>.\<close>

definition startswith :: "string \<Rightarrow> string \<Rightarrow> bool" where
  "startswith s p = (take (length p) s = p)"

fun contains :: "string \<Rightarrow> string \<Rightarrow> bool" where
  "contains [] sub = (sub = [])"
| "contains (c # cs) sub = (startswith (c # cs) sub \<or> contains cs sub)"

text \<open>
  \<^verbatim>\<open>int(s)\<close> on a string, base ten. Around an ASCII numeral \<^verbatim>\<open>int\<close> skips the whitespace of
  C's \<^verbatim>\<open>isspace\<close> only, which is less than \<^verbatim>\<open>str.strip()\<close> removes: the separators
  \<^verbatim>\<open>0x1c\<close> to \<^verbatim>\<open>0x1f\<close> are not skipped. One sign is allowed, then digits, where single
  underscores may separate digits. \<open>None\<close> is \<^verbatim>\<open>ValueError\<close>. The interpreter's limit on
  the number of digits (\<^verbatim>\<open>sys.set_int_max_str_digits\<close>) is configuration and is left out:
  the model is the interpreter with the limit switched off.
\<close>

definition is_int_space :: "char \<Rightarrow> bool" where
  "is_int_space c = (of_char c \<in> {9, 10, 11, 12, 13, 32 :: nat})"

definition int_strip :: "string \<Rightarrow> string" where
  "int_strip s = rev (dropWhile is_int_space (rev (dropWhile is_int_space s)))"

fun digits_value :: "nat \<Rightarrow> string \<Rightarrow> nat option" where
  "digits_value acc [] = Some acc"
| "digits_value acc [c] = (if is_digit c then Some (10 * acc + digit_val c) else None)"
| "digits_value acc (c # d # ds) =
     (if is_digit c then digits_value (10 * acc + digit_val c) (d # ds)
      else if c = CHR ''_'' \<and> is_digit d then digits_value (10 * acc + digit_val d) ds
      else None)"

definition parse_nat :: "string \<Rightarrow> nat option" where
  "parse_nat s = (case s of [] \<Rightarrow> None
     | c # cs \<Rightarrow> if is_digit c then digits_value (digit_val c) cs else None)"

definition py_int :: "string \<Rightarrow> int option" where
  "py_int s = (case int_strip s of [] \<Rightarrow> None
     | c # cs \<Rightarrow>
         if c = CHR ''-'' then map_option (\<lambda>n. - int n) (parse_nat cs)
         else if c = CHR ''+'' then map_option int (parse_nat cs)
         else map_option int (parse_nat (c # cs)))"

text \<open>\<^verbatim>\<open>str(n)\<close> for a natural number, and the format specification \<^verbatim>\<open>{n:02d}\<close>.\<close>

function nat_digits :: "nat \<Rightarrow> string" where
  "nat_digits n =
     (if n < 10 then [digit_char n] else nat_digits (n div 10) @ [digit_char (n mod 10)])"
  by pat_completeness auto
termination
  by (relation "measure id") auto

declare nat_digits.simps [simp del]

definition fmt_02d :: "int \<Rightarrow> string" where
  "fmt_02d n = (if n < 0 then CHR ''-'' # nat_digits (nat (- n))
     else let ds = nat_digits (nat n) in replicate (2 - length ds) CHR ''0'' @ ds)"

section \<open>Time strings (\<^verbatim>\<open>web_automation.py\<close>)\<close>

text \<open>
  \<^verbatim>\<open>convert_time_to_seconds\<close>: the fields are split at the colons and converted with
  \<^verbatim>\<open>int\<close>; the first three are combined. Any exception (a field that is no integer,
  fewer than three fields) is caught and gives 0.
\<close>

definition convert_time_to_seconds :: "string \<Rightarrow> int" where
  "convert_time_to_seconds time_str =
     (case those (map py_int (split_on CHR '':'' time_str)) of
        None \<Rightarrow> 0
      | Some parts \<Rightarrow>
          (case parts of
             p0 # p1 # p2 # _ \<Rightarrow> p0 * 3600 + p1 * 60 + p2
           | _ \<Rightarrow> 0))"

text \<open>
  \<^verbatim>\<open>format_seconds_to_time\<close>. Python's \<^verbatim>\<open>//\<close> and \<^verbatim>\<open>%\<close> round towards minus infinity,
  as \<open>div\<close> and \<open>mod\<close> on \<open>int\<close> do.
\<close>

definition format_seconds_to_time :: "int \<Rightarrow> string" where
  "format_seconds_to_time seconds =
     (let hours = seconds div 3600;
          minutes = (seconds mod 3600) div 60;
          secs = seconds mod 60
      in fmt_02d hours @ '':'' @ fmt_02d minutes @ '':'' @ fmt_02d secs)"

section \<open>The clip descriptor source (\<^verbatim>\<open>csv_reader.py\<close>)\<close>

record ClipData =
  start_time :: string
  end_time :: string
  youtube_url :: string
  row_number :: int

type_synonym groups = "(string \<times> ClipData list) list"

text \<open>
  The reader object, with \<^verbatim>\<open>self.clips\<close> and \<^verbatim>\<open>self.grouped_clips\<close>. A Python \<^verbatim>\<open>dict\<close>
  keeps its keys in insertion order, so the grouping is an association list with
  distinct keys.
\<close>

record CSVReader =
  csv_path :: string
  self_clips :: "ClipData list"
  self_grouped_clips :: groups

datatype error = FileNotFoundError | ReadError | IndexError

text \<open>\<^verbatim>\<open>CSVReader.validate_time_format\<close>\<close>

definition validate_time_format :: "string \<Rightarrow> bool" where
  "validate_time_format time_str =
     (case split_on CHR '':'' time_str of
        [hours, minutes, seconds] \<Rightarrow>
          if \<not> (isdigit hours \<and> isdigit minutes \<and> isdigit seconds) then False
          else (case py_int minutes of
                  None \<Rightarrow> False
                | Some m \<Rightarrow>
                    if m \<ge> 60 then False
                    else (case py_int seconds of
                            None \<Rightarrow> False
                          | Some s \<Rightarrow> if s \<ge> 60 then False else True))
      | _ \<Rightarrow> False)"

text \<open>\<^verbatim>\<open>CSVReader.validate_youtube_url\<close>: a substring test on the whole URL.\<close>

definition youtube_domains :: "string list" where
  "youtube_domains = [''youtube.com'', ''youtu.be'', ''www.youtube.com'']"

definition validate_youtube_url :: "string \<Rightarrow> bool" where
  "validate_youtube_url url =
     (list_ex (\<lambda>domain. contains url domain) youtube_domains \<and> startswith url ''http'')"

text \<open>
  \<^verbatim>\<open>CSVReader.read_csv\<close>. The file is what \<^verbatim>\<open>open\<close> and \<^verbatim>\<open>csv.reader\<close> make of it: missing,
  unreadable, or a list of rows, each a list of fields. One pass of the loop body is
  \<open>read_row\<close>; the accumulators are \<^verbatim>\<open>clips\<close> and \<^verbatim>\<open>invalid_rows\<close>.
\<close>

datatype csv_file = Missing | Unreadable | Rows "string list list"

type_synonym invalid_row = "nat \<times> string \<times> string list"

definition read_row ::
  "nat \<times> string list \<Rightarrow> ClipData list \<times> invalid_row list \<Rightarrow> ClipData list \<times> invalid_row list"
where
  "read_row numbered acc =
     (case numbered of (row_num, row) \<Rightarrow>
      case acc of (clips, invalid_rows) \<Rightarrow>
        if length row < 3 then
          (clips, invalid_rows @ [(row_num, ''Insufficient columns'', row)])
        else
          let start_time = strip (row ! 0);
              end_time = strip (row ! 1);
              youtube_url = strip (row ! 2)
          in
            if \<not> validate_time_format start_time then
              (clips, invalid_rows @ [(row_num, ''Invalid start time format'', row)])
            else if \<not> validate_time_format end_time then
              (clips, invalid_rows @ [(row_num, ''Invalid end time format'', row)])
            else if \<not> validate_youtube_url youtube_url then
              (clips, invalid_rows @ [(row_num, ''Invalid YouTube URL'', row)])
            else
              (clips @ [\<lparr>start_time = start_time, end_time = end_time,
                         youtube_url = youtube_url, row_number = int row_num\<rparr>],
               invalid_rows))"

text \<open>
  The result is the returned clip list, the rejected rows that are logged as warnings,
  and the reader with \<^verbatim>\<open>self.clips\<close> set. \<open>Inl\<close> is the exception that is logged and
  raised again.
\<close>

definition read_csv ::
  "CSVReader \<Rightarrow> csv_file \<Rightarrow> error + (ClipData list \<times> invalid_row list \<times> CSVReader)"
where
  "read_csv self file =
     (case file of
        Missing \<Rightarrow> Inl FileNotFoundError
      | Unreadable \<Rightarrow> Inl ReadError
      | Rows rows \<Rightarrow>
          (case fold read_row (enumerate 1 rows) ([], []) of
             (clips, invalid_rows) \<Rightarrow> Inr (clips, invalid_rows, self\<lparr>self_clips := clips\<rparr>)))"

text \<open>
  \<^verbatim>\<open>CSVReader.group_clips_by_url\<close>. \<open>dict_append grouped key clip\<close> is
  \<^verbatim>\<open>grouped[key].append(clip)\<close> on a \<^verbatim>\<open>defaultdict(list)\<close>: a new key goes to the end, and
  \<open>grouped_by_url\<close> is the first loop. The second loop sorts every group with
  \<^verbatim>\<open>list.sort(key=...)\<close>, a stable sort, which \<open>sort_key\<close> is. The logging loop reads
  \<^verbatim>\<open>url_clips[0]\<close> of every group, which raises \<^verbatim>\<open>IndexError\<close> on an empty group.
\<close>

fun dict_append :: "groups \<Rightarrow> string \<Rightarrow> ClipData \<Rightarrow> groups" where
  "dict_append [] key clip = [(key, [clip])]"
| "dict_append ((k, v) # grouped) key clip =
     (if k = key then (k, v @ [clip]) # grouped else (k, v) # dict_append grouped key clip)"

definition grouped_by_url :: "ClipData list \<Rightarrow> groups" where
  "grouped_by_url clips =
     fold (\<lambda>clip grouped. dict_append grouped (youtube_url clip) clip) clips []"

definition group_clips_by_url ::
  "CSVReader \<Rightarrow> ClipData list option \<Rightarrow> error + (groups \<times> CSVReader)"
where
  "group_clips_by_url self clips_arg =
     (let clips = (case clips_arg of None \<Rightarrow> self_clips self | Some cs \<Rightarrow> cs);
          grouped = grouped_by_url clips;
          result = map (\<lambda>(url, url_clips). (url, sort_key row_number url_clips)) grouped
      in if list_ex (\<lambda>(url, url_clips). url_clips = []) result then Inl IndexError
         else Inr (result, self\<lparr>self_grouped_clips := result\<rparr>))"

section \<open>The resilient locator (\<^verbatim>\<open>web_automation.py\<close>)\<close>

text \<open>
  The browser is outside the repository, so it is a script of answers. A
  \<^verbatim>\<open>WebElement\<close> has an identity and is displayed or not. \<open>page d t selector\<close> is what
  \<^verbatim>\<open>driver.find_element(By.XPATH, selector)\<close> answers when it is the \<open>t\<close>-th request
  sent to the browser: the first node that matches, no such node, or a fault of the
  driver (an invalid selector, a lost session). \<open>requests\<close> records the selectors that
  have been looked up, in order.
\<close>

record element =
  elem_id :: nat
  displayed :: bool

datatype lookup = Found element | NoSuchElement | Fault

datatype exn =
    TimeoutException
  | ElementClickInterceptedException
  | StaleElementReferenceException
  | WebDriverException

record driver =
  page :: "nat \<Rightarrow> string \<Rightarrow> lookup"
  tick :: nat
  requests :: "string list"

definition find_element :: "string \<Rightarrow> driver \<Rightarrow> lookup \<times> driver" where
  "find_element selector d =
     (page d (tick d) selector, d\<lparr>tick := tick d + 1, requests := requests d @ [selector]\<rparr>)"

text \<open>
  \<^verbatim>\<open>WebDriverWait(driver, timeout).until(EC.presence_of_element_located((By.XPATH, selector)))\<close>:
  the condition is \<^verbatim>\<open>find_element\<close>, which asks for presence in the document only;
  \<^verbatim>\<open>until\<close> ignores \<^verbatim>\<open>NoSuchElementException\<close> and polls again, lets any other exception
  through, and raises \<^verbatim>\<open>TimeoutException\<close> after the last poll. It polls every half
  second and at least once, so a timeout of \<open>n\<close> seconds is \<open>polls n\<close> polls.
\<close>

definition polls :: "nat \<Rightarrow> nat" where
  "polls timeout = Suc (2 * timeout)"

fun until_present :: "nat \<Rightarrow> string \<Rightarrow> driver \<Rightarrow> (exn + element) \<times> driver" where
  "until_present 0 selector d = (Inl TimeoutException, d)"
| "until_present (Suc n) selector d =
     (case find_element selector d of
        (Found e, d') \<Rightarrow> (Inr e, d')
      | (NoSuchElement, d') \<Rightarrow> until_present n selector d'
      | (Fault, d') \<Rightarrow> (Inl WebDriverException, d'))"

text \<open>
  \<^verbatim>\<open>find_element_with_multiple_selectors\<close>: only \<^verbatim>\<open>TimeoutException\<close> is caught; it moves
  on to the next selector. \<open>Inl\<close> is an exception that leaves the function.
\<close>

fun find_element_with_multiple_selectors ::
  "string list \<Rightarrow> nat \<Rightarrow> driver \<Rightarrow> (exn + element option) \<times> driver"
where
  "find_element_with_multiple_selectors [] timeout d = (Inr None, d)"
| "find_element_with_multiple_selectors (selector # selectors) timeout d =
     (case until_present (polls timeout) selector d of
        (Inr element, d') \<Rightarrow> (Inr (Some element), d')
      | (Inl TimeoutException, d') \<Rightarrow> find_element_with_multiple_selectors selectors timeout d'
      | (Inl e, d') \<Rightarrow> (Inl e, d'))"

section \<open>The resilient actuator (\<^verbatim>\<open>web_automation.py\<close>)\<close>

text \<open>
  The interactions \<^verbatim>\<open>safe_click\<close> sends to the browser: the \<^verbatim>\<open>scrollIntoView\<close> script, the
  wait for \<^verbatim>\<open>element_to_be_clickable\<close>, the native \<^verbatim>\<open>element.click()\<close>, the script
  \<^verbatim>\<open>arguments[0].click()\<close>, the script that focuses and clicks, and the script that
  dispatches a \<^verbatim>\<open>MouseEvent\<close>. \<open>answer b t a element\<close> is the browser's answer when \<open>a\<close> is
  the \<open>t\<close>-th interaction: \<open>None\<close> when it goes through, or the exception raised.
\<close>

datatype action = ScrollIntoView | WaitClickable | Click | ScriptClick | FocusClick | DispatchClick

record browser =
  answer :: "nat \<Rightarrow> action \<Rightarrow> element \<Rightarrow> exn option"
  step :: nat
  actions :: "(action \<times> element) list"

definition perform :: "action \<Rightarrow> element \<Rightarrow> browser \<Rightarrow> exn option \<times> browser" where
  "perform a element b =
     (answer b (step b) a element,
      b\<lparr>step := step b + 1, actions := actions b @ [(a, element)]\<rparr>)"

text \<open>The body of the \<^verbatim>\<open>try\<close> block: the first exception ends it.\<close>

definition try_click :: "element \<Rightarrow> browser \<Rightarrow> exn option \<times> browser" where
  "try_click element b =
     (case perform ScrollIntoView element b of
        (Some e, b1) \<Rightarrow> (Some e, b1)
      | (None, b1) \<Rightarrow>
          (case perform WaitClickable element b1 of
             (Some e, b2) \<Rightarrow> (Some e, b2)
           | (None, b2) \<Rightarrow> perform Click element b2))"

text \<open>
  \<^verbatim>\<open>safe_click\<close>: the loop over \<^verbatim>\<open>range(max_attempts)\<close>, with the number of attempts left
  as the recursion argument.
\<close>

fun safe_click_loop :: "nat \<Rightarrow> element \<Rightarrow> browser \<Rightarrow> bool \<times> browser" where
  "safe_click_loop 0 element b = (False, b)"
| "safe_click_loop (Suc n) element b =
     (case try_click element b of
        (None, b1) \<Rightarrow> (True, b1)
      | (Some ElementClickInterceptedException, b1) \<Rightarrow>
          (case perform ScriptClick element b1 of
             (None, b2) \<Rightarrow> (True, b2)
           | (Some e, b2) \<Rightarrow> safe_click_loop n element b2)
      | (Some e, b1) \<Rightarrow>
          (case perform FocusClick element b1 of
             (None, b2) \<Rightarrow> (True, b2)
           | (Some e1, b2) \<Rightarrow>
               (case perform DispatchClick element b2 of
                  (None, b3) \<Rightarrow> (True, b3)
                | (Some e2, b3) \<Rightarrow> safe_click_loop n element b3)))"

definition safe_click :: "element \<Rightarrow> int \<Rightarrow> browser \<Rightarrow> bool \<times> browser" where
  "safe_click element max_attempts b = safe_click_loop (nat max_attempts) element b"

section \<open>The batch orchestrator (\<^verbatim>\<open>run_automation.py\<close>)\<close>













section \<open>Notions used in the statements\<close>

text \<open>The number a string of digits denotes.\<close>

definition digits_to_nat :: "string \<Rightarrow> nat" where
  "digits_to_nat s = foldl (\<lambda>a c. 10 * a + digit_val c) 0 s"

text \<open>
  The clip that \<^verbatim>\<open>read_csv\<close> builds from a numbered row, the rows that pass all of its
  checks, and the rows the loader calls short or malformed in a time field.
\<close>

definition clip_of :: "nat \<times> string list \<Rightarrow> ClipData" where
  "clip_of numbered =
     \<lparr>start_time = strip (snd numbered ! 0), end_time = strip (snd numbered ! 1),
      youtube_url = strip (snd numbered ! 2), row_number = int (fst numbered)\<rparr>"

definition row_ok :: "string list \<Rightarrow> bool" where
  "row_ok row =
     (3 \<le> length row \<and> validate_time_format (strip (row ! 0)) \<and>
      validate_time_format (strip (row ! 1)) \<and> validate_youtube_url (strip (row ! 2)))"


text \<open>A reader that has loaded nothing yet.\<close>

definition new_reader :: CSVReader where
  "new_reader = \<lparr>csv_path = ''clip_ranges.csv'', self_clips = [], self_grouped_clips = []\<rparr>"




definition foreign_host_row :: "string list" where
  "foreign_host_row = [''00:00:10'', ''00:00:20'', ''http://evil.example/?q=youtube.com'']"

definition foreign_host_clip :: ClipData where
  "foreign_host_clip =
     \<lparr>start_time = ''00:00:10'', end_time = ''00:00:20'',
      youtube_url = ''http://evil.example/?q=youtube.com'', row_number = 1\<rparr>"



text \<open>The clips of a list that carry a given URL, in the order of the list.\<close>

definition clips_with :: "string \<Rightarrow> ClipData list \<Rightarrow> ClipData list" where
  "clips_with url clips = filter (\<lambda>c. youtube_url c = url) clips"

text \<open>
  The three descriptors of the grouping scenario, numbered as rows 1 to 3, and two
  descriptors of one URL listed against their row numbers.
\<close>

definition scenario_clips :: "ClipData list" where
  "scenario_clips =
     [\<lparr>start_time = ''00:00:10'', end_time = ''00:00:20'',
       youtube_url = ''https://video.example/a'', row_number = 1\<rparr>,
      \<lparr>start_time = ''00:05:00'', end_time = ''00:05:30'',
       youtube_url = ''https://video.example/a'', row_number = 2\<rparr>,
      \<lparr>start_time = ''00:00:00'', end_time = ''00:00:05'',
       youtube_url = ''https://video.example/b'', row_number = 3\<rparr>]"

definition scenario_groups :: groups where
  "scenario_groups =
     [(''https://video.example/a'',
       [\<lparr>start_time = ''00:00:10'', end_time = ''00:00:20'',
         youtube_url = ''https://video.example/a'', row_number = 1\<rparr>,
        \<lparr>start_time = ''00:05:00'', end_time = ''00:05:30'',
         youtube_url = ''https://video.example/a'', row_number = 2\<rparr>]),
      (''https://video.example/b'',
       [\<lparr>start_time = ''00:00:00'', end_time = ''00:00:05'',
         youtube_url = ''https://video.example/b'', row_number = 3\<rparr>])]"

definition late_clip :: ClipData where
  "late_clip =
     \<lparr>start_time = ''00:05:00'', end_time = ''00:05:30'',
      youtube_url = ''https://video.example/a'', row_number = 2\<rparr>"

definition early_clip :: ClipData where
  "early_clip =
     \<lparr>start_time = ''00:00:10'', end_time = ''00:00:20'',
      youtube_url = ''https://video.example/a'', row_number = 1\<rparr>"

text \<open>
  For the locator: the driver after a sequence of lookups, and a sequence of lookups,
  made from a given state on, that all find no element.
\<close>

definition advance :: "driver \<Rightarrow> string list \<Rightarrow> driver" where
  "advance d sels = d\<lparr>tick := tick d + length sels, requests := requests d @ sels\<rparr>"

definition silent :: "driver \<Rightarrow> string list \<Rightarrow> bool" where
  "silent d sels = (\<forall>j < length sels. page d (tick d + j) (sels ! j) = NoSuchElement)"

text \<open>
  An empty document, and a document whose only button is present but not displayed.
\<close>

definition empty_document :: driver where
  "empty_document = \<lparr>page = (\<lambda>t selector. NoSuchElement), tick = 0, requests = []\<rparr>"

definition hidden_button :: element where
  "hidden_button = \<lparr>elem_id = 7, displayed = False\<rparr>"

definition hidden_button_document :: driver where
  "hidden_button_document =
     \<lparr>page = (\<lambda>t selector. if selector = ''//button'' then Found hidden_button
                            else NoSuchElement),
      tick = 0, requests = []\<rparr>"

text \<open>
  For the actuator: a button, and a browser in which every native click is intercepted
  and everything else goes through.
\<close>

definition submit_button :: element where
  "submit_button = \<lparr>elem_id = 1, displayed = True\<rparr>"

definition intercepting_browser :: browser where
  "intercepting_browser =
     \<lparr>answer = (\<lambda>t a element. if a = Click then Some ElementClickInterceptedException
                               else None),
      step = 0, actions = []\<rparr>"










section \<open>Parsing and printing decimal numbers\<close>

lemma digit_not_int_space: "is_digit c \<Longrightarrow> \<not> is_int_space c"
  by (auto simp: is_digit_def is_int_space_def)

lemma digit_not_sign:
  "is_digit c \<Longrightarrow> c \<noteq> CHR ''-'' \<and> c \<noteq> CHR ''+'' \<and> c \<noteq> CHR ''_'' \<and> c \<noteq> CHR '':''"
  by (auto simp: is_digit_def)

lemma int_strip_id:
  assumes "s \<noteq> []" "\<not> is_int_space (hd s)" "\<not> is_int_space (last s)"
  shows "int_strip s = s"
proof -
  from assms have front: "dropWhile is_int_space s = s"
    by (cases s) auto
  from assms have "dropWhile is_int_space (rev s) = rev s"
    by (cases "rev s") (auto simp: last_rev hd_rev)
  with front show ?thesis by (simp add: int_strip_def)
qed

lemma int_strip_isdigit: "isdigit s \<Longrightarrow> int_strip s = s"
  unfolding isdigit_def
  by (rule int_strip_id) (auto simp: list_all_iff digit_not_int_space)

lemma digits_value_all_digits:
  "list_all is_digit s \<Longrightarrow>
   digits_value acc s = Some (foldl (\<lambda>a c. 10 * a + digit_val c) acc s)"
  by (induction acc s rule: digits_value.induct) auto

lemma parse_nat_isdigit: "isdigit s \<Longrightarrow> parse_nat s = Some (digits_to_nat s)"
  by (cases s) (auto simp: isdigit_def parse_nat_def digits_to_nat_def digits_value_all_digits)

lemma py_int_isdigit: "isdigit s \<Longrightarrow> py_int s = Some (int (digits_to_nat s))"
proof -
  assume d: "isdigit s"
  then obtain c cs where s: "s = c # cs" and c: "is_digit c"
    by (cases s) (auto simp: isdigit_def)
  from d have "int_strip s = s" by (rule int_strip_isdigit)
  with s c d show ?thesis
    using parse_nat_isdigit [OF d] digit_not_sign [OF c]
    by (simp add: py_int_def)
qed

lemma digit_char_props: "d < 10 \<Longrightarrow> is_digit (digit_char d) \<and> digit_val (digit_char d) = d"
  by (simp add: is_digit_def digit_val_def digit_char_def)

lemma nat_digits_all: "list_all is_digit (nat_digits n) \<and> nat_digits n \<noteq> []"
proof (induction n rule: nat_digits.induct)
  case (1 n)
  show ?case
  proof (cases "n < 10")
    case True
    then show ?thesis by (subst (1 2) nat_digits.simps) (simp add: digit_char_props)
  next
    case False
    with 1 show ?thesis by (subst (1 2) nat_digits.simps) (simp add: digit_char_props)
  qed
qed

lemma isdigit_nat_digits: "isdigit (nat_digits n)"
  using nat_digits_all by (simp add: isdigit_def)

lemma digits_to_nat_snoc: "digits_to_nat (s @ [c]) = 10 * digits_to_nat s + digit_val c"
  by (simp add: digits_to_nat_def)

lemma digits_to_nat_nat_digits: "digits_to_nat (nat_digits n) = n"
proof (induction n rule: nat_digits.induct)
  case (1 n)
  show ?case
  proof (cases "n < 10")
    case True
    then show ?thesis
      by (subst nat_digits.simps) (simp add: digits_to_nat_def digit_char_props)
  next
    case False
    with 1 have "digits_to_nat (nat_digits (n div 10)) = n div 10" by simp
    with False show ?thesis
      by (subst nat_digits.simps) (simp add: digits_to_nat_snoc digit_char_props)
  qed
qed

lemma digits_to_nat_zeros: "digits_to_nat (replicate k CHR ''0'' @ s) = digits_to_nat s"
proof -
  have "foldl (\<lambda>a c. 10 * a + digit_val c) 0 (replicate k CHR ''0'') = 0"
    by (induction k) (simp_all add: digit_val_def)
  then show ?thesis by (simp add: digits_to_nat_def)
qed

text \<open>\<^verbatim>\<open>int\<close> reads back what \<^verbatim>\<open>{n:02d}\<close> prints, for every integer.\<close>

lemma py_int_fmt_02d: "py_int (fmt_02d n) = Some n"
proof (cases "n < 0")
  case True
  let ?ds = "nat_digits (nat (- n))"
  have d: "isdigit ?ds" by (rule isdigit_nat_digits)
  then have ne: "?ds \<noteq> []" and "is_digit (last ?ds)"
    by (auto simp: isdigit_def list_all_iff)
  then have "\<not> is_int_space (last ?ds)" by (simp add: digit_not_int_space)
  moreover have "\<not> is_int_space CHR ''-''" by (simp add: is_int_space_def)
  ultimately have "int_strip (CHR ''-'' # ?ds) = CHR ''-'' # ?ds"
    using ne by (intro int_strip_id) simp_all
  with True show ?thesis
    by (simp add: py_int_def fmt_02d_def parse_nat_isdigit [OF d] digits_to_nat_nat_digits)
next
  case False
  let ?ds = "nat_digits (nat n)"
  let ?s = "replicate (2 - length ?ds) CHR ''0'' @ ?ds"
  have z: "is_digit CHR ''0''" by (simp add: is_digit_def)
  have "isdigit ?s"
    using isdigit_nat_digits [of "nat n"] z by (auto simp: isdigit_def list_all_iff)
  then have "py_int ?s = Some (int (digits_to_nat ?s))" by (rule py_int_isdigit)
  with False show ?thesis
    by (simp add: fmt_02d_def Let_def digits_to_nat_zeros digits_to_nat_nat_digits)
qed

lemma no_colon_fmt_02d: "CHR '':'' \<notin> set (fmt_02d n)"
proof -
  have "CHR '':'' \<notin> set (nat_digits k)" for k
    using nat_digits_all [of k] digit_not_sign by (auto simp: list_all_iff)
  then show ?thesis by (auto simp: fmt_02d_def Let_def)
qed

section \<open>Time strings\<close>

lemma split_on_no_sep: "c \<notin> set s \<Longrightarrow> split_on c s = [s]"
  by (induction s) auto

lemma split_on_append: "c \<notin> set a \<Longrightarrow> split_on c (a @ c # b) = a # split_on c b"
  by (induction a) auto

lemma split_on_three:
  "c \<notin> set h \<Longrightarrow> c \<notin> set m \<Longrightarrow> c \<notin> set s \<Longrightarrow>
   split_on c (h @ [c] @ m @ [c] @ s) = [h, m, s]"
  by (simp add: split_on_append split_on_no_sep)

lemma isdigit_no_colon: "isdigit s \<Longrightarrow> CHR '':'' \<notin> set s"
  using digit_not_sign by (auto simp: isdigit_def list_all_iff)

lemma hms_recompose: "(n::int) div 3600 * 3600 + n mod 3600 div 60 * 60 + n mod 60 = n"
proof -
  have "n mod 3600 mod 60 = n mod 60" by (simp add: mod_mod_cancel)
  then have "n mod 3600 div 60 * 60 + n mod 60 = n mod 3600"
    by (metis div_mult_mod_eq)
  then show ?thesis by (simp add: add.assoc)
qed

text \<open>Converting a formatted number of seconds gives the number back.\<close>

lemma convert_format: "convert_time_to_seconds (format_seconds_to_time n) = n"
proof -
  have "split_on CHR '':'' (format_seconds_to_time n) =
      [fmt_02d (n div 3600), fmt_02d (n mod 3600 div 60), fmt_02d (n mod 60)]"
    unfolding format_seconds_to_time_def Let_def
    using split_on_three [OF no_colon_fmt_02d no_colon_fmt_02d no_colon_fmt_02d] by simp
  then show ?thesis
    by (simp add: convert_time_to_seconds_def py_int_fmt_02d hms_recompose)
qed

lemma convert_fields:
  assumes "split_on CHR '':'' s = [h, m, sec]" "isdigit h" "isdigit m" "isdigit sec"
  shows "convert_time_to_seconds s =
         int (digits_to_nat h) * 3600 + int (digits_to_nat m) * 60 + int (digits_to_nat sec)"
  using assms by (simp add: convert_time_to_seconds_def py_int_isdigit)



text \<open>
  C2. For a time string \<open>hh:mm:ss\<close> of three digit fields with minutes and seconds below
  60, converting to seconds, formatting and converting again gives the seconds of the
  first conversion, which are \<open>3600 * hh + 60 * mm + ss\<close>.
\<close>

theorem convert_format_round_trip:
  assumes "s = hh @ '':'' @ mm @ '':'' @ ss"
    and "isdigit hh" and "isdigit mm" and "isdigit ss"
    and "digits_to_nat mm < 60" and "digits_to_nat ss < 60"
  shows "convert_time_to_seconds (format_seconds_to_time (convert_time_to_seconds s)) =
           convert_time_to_seconds s \<and>
         convert_time_to_seconds s =
           int (digits_to_nat hh) * 3600 + int (digits_to_nat mm) * 60 + int (digits_to_nat ss)"
proof -
  have "split_on CHR '':'' s = [hh, mm, ss]"
    using assms(1) split_on_three [of "CHR '':''" hh mm ss] assms(2-4)
    by (simp add: isdigit_no_colon)
  then show ?thesis
    using assms(2-4) by (simp add: convert_format convert_fields)
qed

theorem convert_format_round_trip_witness:
  "convert_time_to_seconds
     (format_seconds_to_time (convert_time_to_seconds ''01:02:03'')) =
   convert_time_to_seconds ''01:02:03'' \<and>
   convert_time_to_seconds ''01:02:03'' = 3723"
proof -
  have d: "isdigit ''01''" "isdigit ''02''" "isdigit ''03''"
    by (simp_all add: isdigit_def is_digit_def)
  have v: "digits_to_nat ''01'' = 1" "digits_to_nat ''02'' = 2" "digits_to_nat ''03'' = 3"
    by (simp_all add: digits_to_nat_def digit_val_def)
  have lt: "digits_to_nat ''02'' < 60" "digits_to_nat ''03'' < 60"
    using v by simp_all
  have n: "int (digits_to_nat ''01'') * 3600 + int (digits_to_nat ''02'') * 60 +
      int (digits_to_nat ''03'') = 3723"
    using v by simp
  have "''01:02:03'' = ''01'' @ '':'' @ ''02'' @ '':'' @ ''03''" by simp
  from convert_format_round_trip [OF this d lt, unfolded n] show ?thesis .
qed

section \<open>The loader\<close>

lemma read_row_ok:
  "row_ok row \<Longrightarrow> read_row (n, row) (cs, rej) = (cs @ [clip_of (n, row)], rej)"
  by (simp add: read_row_def row_ok_def clip_of_def Let_def)

lemma read_row_not_ok:
  "\<not> row_ok row \<Longrightarrow> \<exists>msg. read_row (n, row) (cs, rej) = (cs, rej @ [(n, msg, row)])"
  by (auto simp: read_row_def row_ok_def Let_def)

text \<open>The loop keeps the rows that pass, in order, and reports the numbers of the others.\<close>

lemma fold_read_row:
  "\<exists>rej'. fold read_row xs (cs, rej) =
            (cs @ map clip_of (filter (\<lambda>x. row_ok (snd x)) xs), rej @ rej') \<and>
          map fst rej' = map fst (filter (\<lambda>x. \<not> row_ok (snd x)) xs)"
proof (induction xs arbitrary: cs rej)
  case Nil
  then show ?case by simp
next
  case (Cons x xs)
  obtain n row where x: "x = (n, row)" by (cases x)
  show ?case
  proof (cases "row_ok row")
    case True
    from Cons.IH [of "cs @ [clip_of (n, row)]" rej] True x show ?thesis
      by (auto simp: read_row_ok)
  next
    case False
    then obtain msg where m: "read_row (n, row) (cs, rej) = (cs, rej @ [(n, msg, row)])"
      using read_row_not_ok by blast
    from Cons.IH [of cs "rej @ [(n, msg, row)]"] obtain rej' where
      "fold read_row xs (cs, rej @ [(n, msg, row)]) =
         (cs @ map clip_of (filter (\<lambda>x. row_ok (snd x)) xs), (rej @ [(n, msg, row)]) @ rej')"
      "map fst rej' = map fst (filter (\<lambda>x. \<not> row_ok (snd x)) xs)"
      by blast
    with False x m show ?thesis
      by (intro exI [of _ "(n, msg, row) # rej'"]) simp
  qed
qed

lemma read_csv_rows:
  "\<exists>rej. read_csv self (Rows rows) =
           Inr (map clip_of (filter (\<lambda>x. row_ok (snd x)) (enumerate 1 rows)), rej,
                self\<lparr>self_clips :=
                  map clip_of (filter (\<lambda>x. row_ok (snd x)) (enumerate 1 rows))\<rparr>) \<and>
         map fst rej = map fst (filter (\<lambda>x. \<not> row_ok (snd x)) (enumerate 1 rows))"
  using fold_read_row [of "enumerate 1 rows" "[]" "[]"]
  by (auto simp: read_csv_def)

lemma read_csv_Inr:
  assumes "read_csv self file = Inr (cs, rej, self')"
  obtains rows where "file = Rows rows"
    "cs = map clip_of (filter (\<lambda>x. row_ok (snd x)) (enumerate 1 rows))"
proof (cases "file")
  case (Rows rows)
  with assms read_csv_rows [of self rows] that show ?thesis by auto
qed (use assms in \<open>simp_all add: read_csv_def\<close>)

text \<open>The clips come back in row order.\<close>

lemma sorted_enumerate: "sorted (map (\<lambda>x. int (fst x)) (enumerate n xs))"
  by (induction xs arbitrary: n) (auto simp: in_set_enumerate_eq)

lemma read_csv_row_order:
  assumes "read_csv self file = Inr (cs, rej, self')"
  shows "sorted (map row_number cs)"
proof -
  from assms obtain rows where
    cs: "cs = map clip_of (filter (\<lambda>x. row_ok (snd x)) (enumerate 1 rows))"
    by (rule read_csv_Inr)
  have "sorted (map (\<lambda>x. int (fst x)) (enumerate 1 rows))"
    by (rule sorted_enumerate)
  then have "sorted (map (\<lambda>x. int (fst x)) (filter (\<lambda>x. row_ok (snd x)) (enumerate 1 rows)))"
    by (rule sorted_filter)
  moreover have "map row_number cs =
      map (\<lambda>x. int (fst x)) (filter (\<lambda>x. row_ok (snd x)) (enumerate 1 rows))"
    unfolding cs by (simp add: clip_of_def)
  ultimately show ?thesis by simp
qed






text \<open>
  C9. The URL check looks for the domain names anywhere in the URL: a row whose host is
  another domain and whose query contains \<open>youtube.com\<close> passes and is loaded.
\<close>

theorem read_csv_accepts_foreign_host:
  "validate_youtube_url ''http://evil.example/?q=youtube.com'' \<and>
   read_csv new_reader (Rows [foreign_host_row]) =
     Inr ([foreign_host_clip], [], new_reader\<lparr>self_clips := [foreign_host_clip]\<rparr>)"
  by code_simp




section \<open>Grouping by URL\<close>

lemma keys_dict_append:
  "map fst (dict_append g k c) =
     (if k \<in> set (map fst g) then map fst g else map fst g @ [k])"
  by (induction g) (auto simp: rev_image_eqI)

lemma distinct_dict_append:
  "distinct (map fst g) \<Longrightarrow> distinct (map fst (dict_append g k c))"
  by (simp add: keys_dict_append)

lemma map_of_dict_append:
  "map_of (dict_append g k c) =
     (map_of g)(k \<mapsto> (case map_of g k of None \<Rightarrow> [c] | Some v \<Rightarrow> v @ [c]))"
  by (induction g) (auto simp: fun_eq_iff)

lemma mset_dict_append:
  "mset (concat (map snd (dict_append g k c))) = add_mset c (mset (concat (map snd g)))"
  by (induction g) auto

lemma grouped_by_url_snoc:
  "grouped_by_url (clips @ [c]) = dict_append (grouped_by_url clips) (youtube_url c) c"
  by (simp add: grouped_by_url_def)

lemma grouped_by_url_Nil: "grouped_by_url [] = []"
  by (simp add: grouped_by_url_def)

lemma distinct_grouped: "distinct (map fst (grouped_by_url clips))"
  by (induction clips rule: rev_induct)
     (simp_all add: grouped_by_url_Nil grouped_by_url_snoc distinct_dict_append)

lemma map_of_grouped:
  "map_of (grouped_by_url clips) url =
     (if clips_with url clips = [] then None else Some (clips_with url clips))"
proof (induction clips arbitrary: url rule: rev_induct)
  case Nil
  then show ?case by (simp add: grouped_by_url_Nil clips_with_def)
next
  case (snoc c clips)
  show ?case
    by (simp add: grouped_by_url_snoc map_of_dict_append snoc.IH) (simp add: clips_with_def)
qed

lemma in_grouped_iff:
  "(url, cs) \<in> set (grouped_by_url clips) \<longleftrightarrow> cs \<noteq> [] \<and> cs = clips_with url clips"
proof -
  have "(url, cs) \<in> set (grouped_by_url clips) \<longleftrightarrow> map_of (grouped_by_url clips) url = Some cs"
    using distinct_grouped [of clips] by simp
  then show ?thesis by (auto simp: map_of_grouped)
qed

lemma mset_grouped: "mset (concat (map snd (grouped_by_url clips))) = mset clips"
  by (induction clips rule: rev_induct)
     (simp_all add: grouped_by_url_Nil grouped_by_url_snoc mset_dict_append)


lemma mset_sorted_groups:
  "mset (concat (map snd (map (\<lambda>(url, url_clips). (url, sort_key row_number url_clips)) g))) =
   mset (concat (map snd g))"
  by (induction g) auto

lemma keys_sorted_groups:
  "map fst (map (\<lambda>(url, url_clips). (url, sort_key row_number url_clips)) g) = map fst g"
  by (induction g) auto

lemma in_sorted_groups:
  "(url, cs) \<in> set (map (\<lambda>(url, url_clips). (url, sort_key row_number url_clips)) g) \<longleftrightarrow>
   (\<exists>cs'. (url, cs') \<in> set g \<and> cs = sort_key row_number cs')"
  by (induction g) auto

lemma group_clips_by_url_result:
  "group_clips_by_url self arg =
     (let result = map (\<lambda>(url, url_clips). (url, sort_key row_number url_clips))
                     (grouped_by_url (case arg of None \<Rightarrow> self_clips self | Some cs \<Rightarrow> cs))
      in Inr (result, self\<lparr>self_grouped_clips := result\<rparr>))"
proof -
  let ?clips = "case arg of None \<Rightarrow> self_clips self | Some cs \<Rightarrow> cs"
  let ?result = "map (\<lambda>(url, url_clips). (url, sort_key row_number url_clips)) (grouped_by_url ?clips)"
  have "cs \<noteq> []" if "(url, cs) \<in> set ?result" for url cs
  proof -
    from that obtain cs' where "(url, cs') \<in> set (grouped_by_url ?clips)" "cs = sort_key row_number cs'"
      unfolding in_sorted_groups by blast
    then have "cs' \<noteq> []" and "length cs = length cs'"
      by (auto simp: in_grouped_iff)
    then show ?thesis by auto
  qed
  then have "\<not> list_ex (\<lambda>(url, url_clips). url_clips = []) ?result"
    unfolding list_ex_iff by blast
  then show ?thesis by (simp add: group_clips_by_url_def Let_def)
qed

lemma sort_filter_sorted:
  "sorted (map row_number clips) \<Longrightarrow> sort_key row_number (clips_with url clips) = clips_with url clips"
  unfolding clips_with_def
  by (intro sort_key_id_if_sorted) (simp add: sorted_filter)

lemma scenario_eval: "group_clips_by_url self (Some scenario_clips) =
           Inr (scenario_groups, self\<lparr>self_grouped_clips := scenario_groups\<rparr>)"
  by (simp add: group_clips_by_url_def Let_def grouped_by_url_def scenario_clips_def
      scenario_groups_def)


lemma dict_append_new: "k \<notin> set (map fst g) \<Longrightarrow> dict_append g k c = g @ [(k, [c])]"
  by (induction g) auto

lemma dict_append_last:
  "k \<notin> set (map fst g) \<Longrightarrow> dict_append (g @ [(k, v)]) k c = g @ [(k, v @ [c])]"
  by (induction g) auto

lemma fold_same_url:
  assumes "k \<notin> set (map fst g)" and "\<forall>c \<in> set cs. youtube_url c = k"
  shows "fold (\<lambda>clip grouped. dict_append grouped (youtube_url clip) clip) cs (g @ [(k, v)]) =
         g @ [(k, v @ cs)]"
  using assms by (induction cs arbitrary: v) (simp_all add: dict_append_last)

lemma fold_one_group:
  assumes "k \<notin> set (map fst g)" and "cs \<noteq> []" and "\<forall>c \<in> set cs. youtube_url c = k"
  shows "fold (\<lambda>clip grouped. dict_append grouped (youtube_url clip) clip) cs g = g @ [(k, cs)]"
proof -
  from assms(2) obtain c cs' where cs: "cs = c # cs'" by (cases cs) auto
  with assms show ?thesis
    using fold_same_url [of k g cs' "[c]"] by (simp add: dict_append_new)
qed

lemma fold_groups:
  assumes "distinct (map fst (g0 @ g))"
    and "\<forall>(u, cs) \<in> set g. cs \<noteq> [] \<and> (\<forall>c \<in> set cs. youtube_url c = u)"
  shows "fold (\<lambda>clip grouped. dict_append grouped (youtube_url clip) clip)
           (concat (map snd g)) g0 = g0 @ g"
  using assms
proof (induction g arbitrary: g0)
  case Nil
  then show ?case by simp
next
  case (Cons p g)
  obtain u cs where p: "p = (u, cs)" by (cases p)
  from Cons.prems p have "u \<notin> set (map fst g0)" "cs \<noteq> []" "\<forall>c \<in> set cs. youtube_url c = u"
    by auto
  then have one: "fold (\<lambda>clip grouped. dict_append grouped (youtube_url clip) clip) cs g0 =
      g0 @ [(u, cs)]"
    by (rule fold_one_group)
  from Cons.prems p have "distinct (map fst ((g0 @ [(u, cs)]) @ g))"
    and "\<forall>(u, cs) \<in> set g. cs \<noteq> [] \<and> (\<forall>c \<in> set cs. youtube_url c = u)"
    by auto
  from Cons.IH [OF this] one p show ?case by simp
qed

lemma regroup:
  assumes "distinct (map fst g)"
    and "\<forall>(u, cs) \<in> set g. cs \<noteq> [] \<and> (\<forall>c \<in> set cs. youtube_url c = u)"
  shows "grouped_by_url (concat (map snd g)) = g"
  using fold_groups [of "[]" g] assms by (simp add: grouped_by_url_def)

lemma sort_sorted_groups:
  "map (\<lambda>(url, url_clips). (url, sort_key row_number url_clips))
     (map (\<lambda>(url, url_clips). (url, sort_key row_number url_clips)) g) =
   map (\<lambda>(url, url_clips). (url, sort_key row_number url_clips)) g"
  by (induction g) (auto simp: sort_key_id_if_sorted)

text \<open>
  C3, as the claim states it, fails for a list that is not in row order: the groups are
  sorted by row number, so two descriptors of one URL listed as row 2 then row 1 come
  back as row 1 then row 2.
\<close>

theorem group_clips_by_url_input_order_counterexample:
  "group_clips_by_url new_reader (Some [late_clip, early_clip]) =
     Inr ([(''https://video.example/a'', [early_clip, late_clip])],
          new_reader\<lparr>self_grouped_clips :=
            [(''https://video.example/a'', [early_clip, late_clip])]\<rparr>) \<and>
   clips_with ''https://video.example/a'' [late_clip, early_clip] = [late_clip, early_clip] \<and>
   [early_clip, late_clip] \<noteq> [late_clip, early_clip]"
  by (simp add: group_clips_by_url_def Let_def grouped_by_url_def late_clip_def early_clip_def
      clips_with_def new_reader_def)

text \<open>
  C3, amended. Grouping never raises. The groups have distinct URLs and partition the
  input; every group is non-empty, holds descriptors of its URL only, and lists the
  input's descriptors of that URL sorted stably by row number, which is the input order
  whenever the input is in row order. The three-row scenario gives two groups, the
  first with its two descriptors in input order, the second with one.
\<close>

theorem group_clips_by_url_partition:
  "\<exists>result.
     group_clips_by_url self (Some clips) = Inr (result, self\<lparr>self_grouped_clips := result\<rparr>) \<and>
     distinct (map fst result) \<and>
     mset (concat (map snd result)) = mset clips \<and>
     (\<forall>(url, url_clips) \<in> set result.
        url_clips \<noteq> [] \<and>
        (\<forall>c \<in> set url_clips. youtube_url c = url) \<and>
        url_clips = sort_key row_number (clips_with url clips) \<and>
        (sorted (map row_number clips) \<longrightarrow> url_clips = clips_with url clips)) \<and>
     group_clips_by_url self (Some scenario_clips) =
       Inr (scenario_groups, self\<lparr>self_grouped_clips := scenario_groups\<rparr>)"
proof -
  let ?result = "map (\<lambda>(url, url_clips). (url, sort_key row_number url_clips)) (grouped_by_url clips)"
  have r: "group_clips_by_url self (Some clips) = Inr (?result, self\<lparr>self_grouped_clips := ?result\<rparr>)"
    by (simp add: group_clips_by_url_result Let_def)
  have d: "distinct (map fst ?result)"
    by (simp only: keys_sorted_groups distinct_grouped)
  have m: "mset (concat (map snd ?result)) = mset clips"
    by (simp only: mset_sorted_groups mset_grouped)
  have g: "url_clips \<noteq> [] \<and>
        (\<forall>c \<in> set url_clips. youtube_url c = url) \<and>
        url_clips = sort_key row_number (clips_with url clips) \<and>
        (sorted (map row_number clips) \<longrightarrow> url_clips = clips_with url clips)"
    if "(url, url_clips) \<in> set ?result" for url url_clips
  proof -
    from that have ne: "clips_with url clips \<noteq> []"
      and eq: "url_clips = sort_key row_number (clips_with url clips)"
      unfolding in_sorted_groups in_grouped_iff by auto
    from ne eq have "url_clips \<noteq> []"
      by (metis length_sort length_0_conv)
    moreover from eq have "\<forall>c \<in> set url_clips. youtube_url c = url"
      by (simp add: clips_with_def)
    ultimately show ?thesis using eq by (simp add: sort_filter_sorted)
  qed
  from r d m g scenario_eval show ?thesis by blast
qed

theorem group_clips_by_url_partition_witness:
  "sorted (map row_number scenario_clips) \<and>
   (''https://video.example/a'', [early_clip, late_clip]) \<in> set scenario_groups \<and>
   distinct (map fst scenario_groups) \<and>
   mset (concat (map snd scenario_groups)) = mset scenario_clips \<and>
   [early_clip, late_clip] = clips_with ''https://video.example/a'' scenario_clips \<and>
   [early_clip, late_clip] =
     sort_key row_number (clips_with ''https://video.example/a'' scenario_clips)"
proof -
  have s: "sorted (map row_number scenario_clips)" by (simp add: scenario_clips_def)
  have a: "(''https://video.example/a'', [early_clip, late_clip]) \<in> set scenario_groups"
    by (simp add: scenario_groups_def early_clip_def late_clip_def)
  from group_clips_by_url_partition [of new_reader scenario_clips] obtain result where
    all: "group_clips_by_url new_reader (Some scenario_clips) =
          Inr (result, new_reader\<lparr>self_grouped_clips := result\<rparr>) \<and>
     distinct (map fst result) \<and>
     mset (concat (map snd result)) = mset scenario_clips \<and>
     (\<forall>(url, url_clips) \<in> set result.
        url_clips \<noteq> [] \<and>
        (\<forall>c \<in> set url_clips. youtube_url c = url) \<and>
        url_clips = sort_key row_number (clips_with url scenario_clips) \<and>
        (sorted (map row_number scenario_clips) \<longrightarrow> url_clips = clips_with url scenario_clips)) \<and>
     group_clips_by_url new_reader (Some scenario_clips) =
       Inr (scenario_groups, new_reader\<lparr>self_grouped_clips := scenario_groups\<rparr>)" ..
  note r = all [THEN conjunct1]
  note d = all [THEN conjunct2, THEN conjunct1]
  note m = all [THEN conjunct2, THEN conjunct2, THEN conjunct1]
  note g = all [THEN conjunct2, THEN conjunct2, THEN conjunct2, THEN conjunct1]
  note e = all [THEN conjunct2, THEN conjunct2, THEN conjunct2, THEN conjunct2]
  from trans [OF r [symmetric] e] have eq: "result = scenario_groups" by simp
  from bspec [OF g [unfolded eq] a, unfolded prod.case]
  have p: "[early_clip, late_clip] \<noteq> [] \<and>
      (\<forall>c \<in> set [early_clip, late_clip]. youtube_url c = ''https://video.example/a'') \<and>
      [early_clip, late_clip] =
        sort_key row_number (clips_with ''https://video.example/a'' scenario_clips) \<and>
      (sorted (map row_number scenario_clips) \<longrightarrow>
        [early_clip, late_clip] = clips_with ''https://video.example/a'' scenario_clips)"
    .
  from p s have o: "[early_clip, late_clip] =
      clips_with ''https://video.example/a'' scenario_clips"
    by (elim conjE impE)
  note k = p [THEN conjunct2, THEN conjunct2, THEN conjunct1]
  from s a d m o k show ?thesis unfolding eq by (intro conjI)
qed

text \<open>
  C4. Grouping a second time, on the reader as the first call left it, returns the same
  groups in the same order and leaves the reader as it is; so does grouping the
  descriptors of the groups themselves, read group after group.
\<close>

theorem group_clips_by_url_idempotent:
  "\<exists>result self1.
     group_clips_by_url self arg = Inr (result, self1) \<and>
     group_clips_by_url self1 arg = Inr (result, self1) \<and>
     group_clips_by_url self1 (Some (concat (map snd result))) = Inr (result, self1)"
proof -
  define clips where "clips = (case arg of None \<Rightarrow> self_clips self | Some cs \<Rightarrow> cs)"
  define result where
    "result = map (\<lambda>(url, url_clips). (url, sort_key row_number url_clips)) (grouped_by_url clips)"
  define self1 where "self1 = self\<lparr>self_grouped_clips := result\<rparr>"
  have first: "group_clips_by_url self arg = Inr (result, self1)"
    by (simp add: group_clips_by_url_result Let_def result_def self1_def clips_def)
  have same: "(case arg of None \<Rightarrow> self_clips self1 | Some cs \<Rightarrow> cs) = clips"
    by (cases arg) (simp_all add: self1_def clips_def)
  have second: "group_clips_by_url self1 arg = Inr (result, self1)"
    by (simp add: group_clips_by_url_result Let_def same) (simp add: result_def self1_def)
  have d: "distinct (map fst result)"
    unfolding result_def by (simp only: keys_sorted_groups distinct_grouped)
  have g: "\<forall>(u, cs) \<in> set result. cs \<noteq> [] \<and> (\<forall>c \<in> set cs. youtube_url c = u)"
  proof (clarify)
    fix u cs assume "(u, cs) \<in> set result"
    then have ne: "clips_with u clips \<noteq> []"
      and eq: "cs = sort_key row_number (clips_with u clips)"
      unfolding result_def in_sorted_groups in_grouped_iff by auto
    from ne eq have "cs \<noteq> []" by (metis length_sort length_0_conv)
    moreover from eq have "\<forall>c \<in> set cs. youtube_url c = u" by (simp add: clips_with_def)
    ultimately show "cs \<noteq> [] \<and> (\<forall>c \<in> set cs. youtube_url c = u)" by simp
  qed
  have rg: "grouped_by_url (concat (map snd result)) = result"
    using d g by (rule regroup)
  have ss: "map (\<lambda>(url, url_clips). (url, sort_key row_number url_clips)) result = result"
    unfolding result_def by (rule sort_sorted_groups)
  have third: "group_clips_by_url self1 (Some (concat (map snd result))) = Inr (result, self1)"
    by (simp add: group_clips_by_url_result Let_def rg ss) (simp add: self1_def)
  from first second third show ?thesis by blast
qed

theorem group_clips_by_url_idempotent_witness:
  "group_clips_by_url new_reader (Some scenario_clips) =
     Inr (scenario_groups, new_reader\<lparr>self_grouped_clips := scenario_groups\<rparr>) \<and>
   group_clips_by_url (new_reader\<lparr>self_grouped_clips := scenario_groups\<rparr>) (Some scenario_clips) =
     Inr (scenario_groups, new_reader\<lparr>self_grouped_clips := scenario_groups\<rparr>) \<and>
   group_clips_by_url (new_reader\<lparr>self_grouped_clips := scenario_groups\<rparr>)
       (Some (concat (map snd scenario_groups))) =
     Inr (scenario_groups, new_reader\<lparr>self_grouped_clips := scenario_groups\<rparr>)"
proof -
  from group_clips_by_url_idempotent [of new_reader "Some scenario_clips"]
  obtain result self1 where
    a: "group_clips_by_url new_reader (Some scenario_clips) = Inr (result, self1)" and
    b: "group_clips_by_url self1 (Some scenario_clips) = Inr (result, self1)" and
    c: "group_clips_by_url self1 (Some (concat (map snd result))) = Inr (result, self1)"
    by blast
  have "group_clips_by_url new_reader (Some scenario_clips) =
     Inr (scenario_groups, new_reader\<lparr>self_grouped_clips := scenario_groups\<rparr>)"
    by (rule scenario_eval)
  with a have "result = scenario_groups"
    "self1 = new_reader\<lparr>self_grouped_clips := scenario_groups\<rparr>" by simp_all
  with a b c show ?thesis by simp
qed

section \<open>The locator\<close>

lemma advance_Nil: "advance d [] = d"
  by (simp add: advance_def)

lemma advance_append: "advance (advance d a) b = advance d (a @ b)"
  by (simp add: advance_def)

lemma page_advance: "page (advance d a) = page d"
  by (simp add: advance_def)

lemma tick_advance: "tick (advance d a) = tick d + length a"
  by (simp add: advance_def)

lemma silent_Nil: "silent d []"
  by (simp add: silent_def)

lemma silent_append: "silent d (a @ b) \<longleftrightarrow> silent d a \<and> silent (advance d a) b"
proof
  assume s: "silent d (a @ b)"
  have "silent d a"
    unfolding silent_def
  proof (intro allI impI)
    fix j assume "j < length a"
    with s have "page d (tick d + j) ((a @ b) ! j) = NoSuchElement"
      by (simp add: silent_def)
    with \<open>j < length a\<close> show "page d (tick d + j) (a ! j) = NoSuchElement"
      by (simp add: nth_append)
  qed
  moreover have "silent (advance d a) b"
    unfolding silent_def
  proof (intro allI impI)
    fix j assume "j < length b"
    then have "length a + j < length (a @ b)" by simp
    with s have "page d (tick d + (length a + j)) ((a @ b) ! (length a + j)) = NoSuchElement"
      unfolding silent_def by blast
    then show "page (advance d a) (tick (advance d a) + j) (b ! j) = NoSuchElement"
      by (simp add: page_advance tick_advance add.assoc)
  qed
  ultimately show "silent d a \<and> silent (advance d a) b" ..
next
  assume s: "silent d a \<and> silent (advance d a) b"
  show "silent d (a @ b)"
    unfolding silent_def
  proof (intro allI impI)
    fix j assume j: "j < length (a @ b)"
    show "page d (tick d + j) ((a @ b) ! j) = NoSuchElement"
    proof (cases "j < length a")
      case True
      with s show ?thesis by (simp add: silent_def nth_append)
    next
      case False
      with j have "j - length a < length b" by simp
      with s have "page (advance d a) (tick (advance d a) + (j - length a)) (b ! (j - length a)) =
          NoSuchElement"
        by (simp add: silent_def)
      with False show ?thesis
        by (simp add: page_advance tick_advance nth_append)
    qed
  qed
qed

lemma find_element_advance:
  "find_element selector d = (page d (tick d) selector, advance d [selector])"
  by (simp add: find_element_def advance_def)

lemma silent_single: "silent d [selector] \<longleftrightarrow> page d (tick d) selector = NoSuchElement"
  by (simp add: silent_def)

lemma until_present_timeout:
  "until_present n selector d = (Inl TimeoutException, d') \<Longrightarrow>
   d' = advance d (replicate n selector) \<and> silent d (replicate n selector)"
proof (induction n arbitrary: d)
  case 0
  then show ?case by (simp add: advance_Nil silent_Nil)
next
  case (Suc n)
  from Suc.prems have p: "page d (tick d) selector = NoSuchElement"
    and u: "until_present n selector (advance d [selector]) = (Inl TimeoutException, d')"
    by (auto simp: find_element_advance split: lookup.splits)
  from Suc.IH [OF u] p show ?case
    using silent_append [of d "[selector]" "replicate n selector"]
    by (simp add: advance_append silent_single)
qed

lemma until_present_found:
  "until_present n selector d = (Inr e, d') \<Longrightarrow>
   \<exists>k < n. d' = advance d (replicate k selector @ [selector]) \<and>
           silent d (replicate k selector) \<and>
           page d (tick d + k) selector = Found e"
proof (induction n arbitrary: d)
  case 0
  then show ?case by simp
next
  case (Suc n)
  show ?case
  proof (cases "page d (tick d) selector")
    case (Found x)
    with Suc.prems have "x = e" "d' = advance d [selector]"
      by (auto simp: find_element_advance)
    with Found show ?thesis
      by (intro exI [of _ 0]) (simp add: silent_Nil)
  next
    case NoSuchElement
    with Suc.prems have u: "until_present n selector (advance d [selector]) = (Inr e, d')"
      by (simp add: find_element_advance)
    from Suc.IH [OF u] obtain k where k: "k < n"
      "d' = advance (advance d [selector]) (replicate k selector @ [selector])"
      "silent (advance d [selector]) (replicate k selector)"
      "page (advance d [selector]) (tick (advance d [selector]) + k) selector = Found e"
      by blast
    from k(3) NoSuchElement have "silent d (replicate (Suc k) selector)"
      using silent_append [of d "[selector]" "replicate k selector"]
      by (simp add: silent_single)
    with k show ?thesis
      by (intro exI [of _ "Suc k"]) (simp add: advance_append page_advance tick_advance)
  next
    case Fault
    with Suc.prems show ?thesis by (simp add: find_element_advance)
  qed
qed

lemma until_present_silent:
  "silent d (replicate n selector) \<Longrightarrow>
   until_present n selector d = (Inl TimeoutException, advance d (replicate n selector))"
proof (induction n arbitrary: d)
  case 0
  then show ?case by (simp add: advance_Nil)
next
  case (Suc n)
  from Suc.prems have "silent d [selector]" "silent (advance d [selector]) (replicate n selector)"
    using silent_append [of d "[selector]" "replicate n selector"] by simp_all
  with Suc.IH [of "advance d [selector]"] show ?case
    by (simp add: find_element_advance silent_single advance_append)
qed

lemma silent_never_matching:
  "(\<And>t. page d t selector = NoSuchElement) \<Longrightarrow> silent d (replicate n selector)"
  by (simp add: silent_def)


text \<open>A returned element comes with the trace of an ordered, fail-fast search.\<close>

lemma locator_found_trace:
  assumes "find_element_with_multiple_selectors selectors timeout d = (Inr (Some e), d')"
  shows "\<exists>before selector after k quiet.
           selectors = before @ selector # after \<and> k < polls timeout \<and>
           quiet = concat (map (replicate (polls timeout)) before) @ replicate k selector \<and>
           silent d quiet \<and>
           page d (tick d + length quiet) selector = Found e \<and>
           d' = advance d (quiet @ [selector])"
  using assms
proof (induction selectors arbitrary: d)
  case Nil
  then show ?case by simp
next
  case (Cons s selectors)
  obtain r d1 where u: "until_present (polls timeout) s d = (r, d1)"
    by (cases "until_present (polls timeout) s d")
  show ?case
  proof (cases r)
    case (Inr x)
    with u Cons.prems have "x = e" "d1 = d'" by simp_all
    with u Inr obtain k where "k < polls timeout" "d' = advance d (replicate k s @ [s])"
      "silent d (replicate k s)" "page d (tick d + k) s = Found e"
      using until_present_found [of "polls timeout" s d e d'] by auto
    then show ?thesis
      by (intro exI [of _ "[]"] exI [of _ s] exI [of _ selectors] exI [of _ k]
          exI [of _ "replicate k s"]) simp
  next
    case (Inl x)
    show ?thesis
    proof (cases "x = TimeoutException")
      case True
      with u Inl have t: "until_present (polls timeout) s d = (Inl TimeoutException, d1)"
        by simp
      then have d1: "d1 = advance d (replicate (polls timeout) s)"
        and q: "silent d (replicate (polls timeout) s)"
        using until_present_timeout by blast+
      from t Cons.prems have
        "find_element_with_multiple_selectors selectors timeout d1 = (Inr (Some e), d')"
        by simp
      from Cons.IH [OF this] obtain before selector after k quiet where
        i: "selectors = before @ selector # after" "k < polls timeout"
          "quiet = concat (map (replicate (polls timeout)) before) @ replicate k selector"
          "silent d1 quiet" "page d1 (tick d1 + length quiet) selector = Found e"
          "d' = advance d1 (quiet @ [selector])"
        by blast
      let ?quiet = "replicate (polls timeout) s @ quiet"
      have "silent d ?quiet"
        using q i(4) d1 by (simp add: silent_append)
      moreover have "page d (tick d + length ?quiet) selector = Found e"
        using i(5) d1 by (simp add: page_advance tick_advance add.assoc)
      moreover have "d' = advance d (?quiet @ [selector])"
        using i(6) d1 by (simp add: advance_append)
      moreover have "?quiet = concat (map (replicate (polls timeout)) (s # before)) @
          replicate k selector"
        using i(3) by simp
      moreover have "s # selectors = (s # before) @ selector # after"
        using i(1) by simp
      ultimately show ?thesis
        using i(2) by blast
    next
      case False
      with u Inl Cons.prems show ?thesis
        by (cases x) simp_all
    qed
  qed
qed


text \<open>Conversely, such a run of the document makes the locator return the element.\<close>

lemma until_present_finds:
  "k < n \<Longrightarrow> silent d (replicate k selector) \<Longrightarrow>
   page d (tick d + k) selector = Found e \<Longrightarrow>
   until_present n selector d = (Inr e, advance d (replicate k selector @ [selector]))"
proof (induction k arbitrary: n d)
  case 0
  then obtain m where "n = Suc m" by (cases n) auto
  with 0 show ?case by (simp add: find_element_advance)
next
  case (Suc k)
  then obtain m where n: "n = Suc m" "k < m" by (cases n) auto
  from Suc.prems(2) have first: "page d (tick d) selector = NoSuchElement"
    and rest: "silent (advance d [selector]) (replicate k selector)"
    using silent_append [of d "[selector]" "replicate k selector"]
    by (simp_all add: silent_single)
  from Suc.prems(3) have
    "page (advance d [selector]) (tick (advance d [selector]) + k) selector = Found e"
    by (simp add: page_advance tick_advance)
  from Suc.IH [OF n(2) rest this] first n(1) show ?case
    by (simp add: find_element_advance advance_append)
qed

lemma locator_finds:
  assumes "k < polls timeout"
    and "silent d (concat (map (replicate (polls timeout)) before) @ replicate k selector)"
    and "page d (tick d + length (concat (map (replicate (polls timeout)) before) @
           replicate k selector)) selector = Found e"
  shows "find_element_with_multiple_selectors (before @ selector # after) timeout d =
           (Inr (Some e),
            advance d ((concat (map (replicate (polls timeout)) before) @ replicate k selector) @
                       [selector]))"
  using assms(2,3)
proof (induction before arbitrary: d)
  case Nil
  then have "until_present (polls timeout) selector d =
      (Inr e, advance d (replicate k selector @ [selector]))"
    using assms(1) by (intro until_present_finds) simp_all
  then show ?case by simp
next
  case (Cons s before)
  let ?d1 = "advance d (replicate (polls timeout) s)"
  let ?quiet = "concat (map (replicate (polls timeout)) before) @ replicate k selector"
  from Cons.prems(1) have q: "silent d (replicate (polls timeout) s)" and r: "silent ?d1 ?quiet"
    using silent_append [of d "replicate (polls timeout) s" ?quiet] by simp_all
  from q have u: "until_present (polls timeout) s d = (Inl TimeoutException, ?d1)"
    by (rule until_present_silent)
  from Cons.prems(2) have "page ?d1 (tick ?d1 + length ?quiet) selector = Found e"
    by (simp add: page_advance tick_advance add.assoc)
  from Cons.IH [OF r this] u show ?case
    by (simp add: advance_append)
qed

lemma hidden_eval:
  "find_element_with_multiple_selectors [''//input'', ''//button''] 1 hidden_button_document =
     (Inr (Some hidden_button),
      advance hidden_button_document [''//input'', ''//input'', ''//input'', ''//button''])"
  by (simp add: hidden_button_document_def polls_def find_element_def advance_def
      eval_nat_numeral)

text \<open>
  C5. When no candidate selector ever matches, every candidate is polled until its
  timeout and the locator returns \<open>None\<close>; it does not raise.
\<close>

theorem locator_returns_none:
  assumes "\<And>t selector. selector \<in> set selectors \<Longrightarrow> page d t selector = NoSuchElement"
  shows "find_element_with_multiple_selectors selectors timeout d =
           (Inr None, advance d (concat (map (replicate (polls timeout)) selectors)))"
  using assms
proof (induction selectors arbitrary: d)
  case Nil
  then show ?case by (simp add: advance_Nil)
next
  case (Cons selector selectors)
  let ?d1 = "advance d (replicate (polls timeout) selector)"
  from Cons.prems have "silent d (replicate (polls timeout) selector)"
    by (intro silent_never_matching) simp
  then have u: "until_present (polls timeout) selector d = (Inl TimeoutException, ?d1)"
    by (rule until_present_silent)
  have "find_element_with_multiple_selectors selectors timeout ?d1 =
      (Inr None, advance ?d1 (concat (map (replicate (polls timeout)) selectors)))"
    using Cons.prems by (intro Cons.IH) (simp add: page_advance)
  with u show ?case by (simp add: advance_append)
qed


theorem locator_returns_none_witness:
  "(\<forall>t selector. page empty_document t selector = NoSuchElement) \<and>
   find_element_with_multiple_selectors [''//input'', ''//button''] 10 empty_document =
     (Inr None,
      advance empty_document (concat (map (replicate (polls 10)) [''//input'', ''//button''])))"
proof -
  have h: "\<forall>t selector. page empty_document t selector = NoSuchElement"
    by (simp add: empty_document_def)
  then have "\<And>t selector. selector \<in> set [''//input'', ''//button''] \<Longrightarrow>
      page empty_document t selector = NoSuchElement"
    by simp
  from locator_returns_none [OF this, where timeout = 10] h show ?thesis
    by (intro conjI)
qed

text \<open>
  C6, as the claim states it, fails: the wait is for presence in the document, and the
  locator returns a matching element that is not displayed.
\<close>

theorem locator_returns_hidden_element_counterexample:
  "fst (find_element_with_multiple_selectors [''//input'', ''//button''] 1
          hidden_button_document) = Inr (Some hidden_button) \<and>
   \<not> displayed hidden_button"
proof -
  have "fst (find_element_with_multiple_selectors [''//input'', ''//button''] 1
          hidden_button_document) = Inr (Some hidden_button)"
    by (simp only: hidden_eval fst_conv)
  moreover have "\<not> displayed hidden_button"
    by (simp add: hidden_button_def)
  ultimately show ?thesis ..
qed

text \<open>
  C6, amended. The locator returns an element exactly when the document answers an
  ordered, fail-fast search with it: every candidate before some candidate is polled
  until its timeout and finds nothing, that candidate is polled until it matches within
  its timeout, every poll before the last finds nothing, the element is the one the
  last poll finds present, displayed or not, and no later candidate is polled.
\<close>

theorem locator_first_present:
  "find_element_with_multiple_selectors selectors timeout d = (Inr (Some e), d') \<longleftrightarrow>
   (\<exists>before selector after k quiet.
      selectors = before @ selector # after \<and> k < polls timeout \<and>
      quiet = concat (map (replicate (polls timeout)) before) @ replicate k selector \<and>
      silent d quiet \<and>
      page d (tick d + length quiet) selector = Found e \<and>
      d' = advance d (quiet @ [selector]))"
proof
  assume "find_element_with_multiple_selectors selectors timeout d = (Inr (Some e), d')"
  then show "\<exists>before selector after k quiet.
      selectors = before @ selector # after \<and> k < polls timeout \<and>
      quiet = concat (map (replicate (polls timeout)) before) @ replicate k selector \<and>
      silent d quiet \<and>
      page d (tick d + length quiet) selector = Found e \<and>
      d' = advance d (quiet @ [selector])"
    by (rule locator_found_trace)
next
  assume "\<exists>before selector after k quiet.
      selectors = before @ selector # after \<and> k < polls timeout \<and>
      quiet = concat (map (replicate (polls timeout)) before) @ replicate k selector \<and>
      silent d quiet \<and>
      page d (tick d + length quiet) selector = Found e \<and>
      d' = advance d (quiet @ [selector])"
  then obtain before selector after k where
    "selectors = before @ selector # after" "k < polls timeout"
    "silent d (concat (map (replicate (polls timeout)) before) @ replicate k selector)"
    "page d (tick d + length (concat (map (replicate (polls timeout)) before) @
       replicate k selector)) selector = Found e"
    "d' = advance d ((concat (map (replicate (polls timeout)) before) @ replicate k selector) @
       [selector])"
    by blast
  then show "find_element_with_multiple_selectors selectors timeout d = (Inr (Some e), d')"
    using locator_finds [of k timeout d before selector e after] by simp
qed

theorem locator_first_present_witness:
  "silent hidden_button_document [''//input'', ''//input'', ''//input''] \<and>
   page hidden_button_document 3 ''//button'' = Found hidden_button \<and>
   find_element_with_multiple_selectors [''//input'', ''//button''] 1 hidden_button_document =
     (Inr (Some hidden_button),
      advance hidden_button_document [''//input'', ''//input'', ''//input'', ''//button''])"
proof -
  have s: "silent hidden_button_document [''//input'', ''//input'', ''//input'']"
    by (auto simp: silent_def hidden_button_document_def nth_Cons')
  have p: "page hidden_button_document 3 ''//button'' = Found hidden_button"
    by (simp add: hidden_button_document_def)
  have t: "tick hidden_button_document = 0"
    by (simp add: hidden_button_document_def)
  have "\<exists>before selector after k quiet.
      [''//input'', ''//button''] = before @ selector # after \<and> k < polls 1 \<and>
      quiet = concat (map (replicate (polls 1)) before) @ replicate k selector \<and>
      silent hidden_button_document quiet \<and>
      page hidden_button_document (tick hidden_button_document + length quiet) selector =
        Found hidden_button \<and>
      advance hidden_button_document [''//input'', ''//input'', ''//input'', ''//button''] =
        advance hidden_button_document (quiet @ [selector])"
    using s p t
    by (intro exI [of _ "[''//input'']"] exI [of _ "''//button''"] exI [of _ "[]"]
        exI [of _ 0] exI [of _ "[''//input'', ''//input'', ''//input'']"])
      (simp add: polls_def eval_nat_numeral)
  from locator_first_present [THEN iffD2, OF this] s p show ?thesis
    by (intro conjI)
qed

section \<open>The actuator\<close>

text \<open>
  C7. With at least one attempt allowed, when on the first attempt the scroll and the
  wait go through, the native click is intercepted and the script click goes through,
  \<^verbatim>\<open>safe_click\<close> returns \<open>True\<close> after these four interactions: no further attempt is
  made.
\<close>

theorem safe_click_fallback:
  assumes "0 < max_attempts"
    and "answer b (step b) ScrollIntoView element = None"
    and "answer b (step b + 1) WaitClickable element = None"
    and "answer b (step b + 2) Click element = Some ElementClickInterceptedException"
    and "answer b (step b + 3) ScriptClick element = None"
  shows "safe_click element max_attempts b =
           (True, b\<lparr>step := step b + 4,
                    actions := actions b @ [(ScrollIntoView, element), (WaitClickable, element),
                                            (Click, element), (ScriptClick, element)]\<rparr>)"
proof -
  from assms(1) obtain n where n: "nat max_attempts = Suc n"
    by (cases "nat max_attempts") auto
  have t: "try_click element b =
      (Some ElementClickInterceptedException,
       b\<lparr>step := step b + 3,
         actions := actions b @ [(ScrollIntoView, element), (WaitClickable, element),
                                 (Click, element)]\<rparr>)"
    using assms(2-4) by (simp add: try_click_def perform_def numeral_3_eq_3)
  show ?thesis
    using assms(5) by (simp add: safe_click_def n t perform_def)
qed

theorem safe_click_fallback_witness:
  "safe_click submit_button 3 intercepting_browser =
     (True, intercepting_browser\<lparr>step := 4,
              actions := [(ScrollIntoView, submit_button), (WaitClickable, submit_button),
                          (Click, submit_button), (ScriptClick, submit_button)]\<rparr>)"
proof -
  have "safe_click submit_button 3 intercepting_browser =
     (True, intercepting_browser\<lparr>step := step intercepting_browser + 4,
              actions := actions intercepting_browser @
                         [(ScrollIntoView, submit_button), (WaitClickable, submit_button),
                          (Click, submit_button), (ScriptClick, submit_button)]\<rparr>)"
    by (rule safe_click_fallback) (simp_all add: intercepting_browser_def)
  then show ?thesis by (simp add: intercepting_browser_def)
qed

section \<open>The orchestrator\<close>


















end
